theory Spec2Isabelle
  imports Main "HOL-Library.AList" "HOL-Library.Product_Lexorder" "HOL-Library.Multiset"
begin

section \<open>Data model\<close>

text \<open>
  The program exists twice in the repository: as the single script
  \<^verbatim>\<open>wasabi_downloader.py\<close> (called the script below) and as the package
  \<^verbatim>\<open>wasabi-downloader/\<close> whose logic sits in \<^verbatim>\<open>s3_handler.py\<close> (called the
  handler below). Both are embedded; definitions of the script carry the suffix
  \<open>_script\<close> where a name would otherwise clash.

  A listing record is a Python dict produced by the storage SDK. The code always indexes
  \<^verbatim>\<open>'Key'\<close> and \<^verbatim>\<open>'LastModified'\<close> and tests for the presence of
  \<^verbatim>\<open>'VersionId'\<close> and \<^verbatim>\<open>'Size'\<close>, so the former are plain fields and
  the latter optional ones. A timezone-aware UTC datetime is the tuple of its fields
  (year, month, day, hour, minute, second, microsecond), which Python compares
  lexicographically.
\<close>

type_synonym datetime = "int \<times> int \<times> int \<times> int \<times> int \<times> int \<times> int"

record entry =
  Key :: string
  VersionId :: "string option"
  LastModified :: datetime
  Size :: "int option"

record page =
  Contents :: "entry list option"
  Versions :: "entry list option"
  DeleteMarkers :: "entry list option"

datatype exn =
    KeyError
  | ValueError
  | ClientError string
  | FileNotFoundError string string
  | PermissionError
  | OtherException

text \<open>\<^verbatim>\<open>page.get(name, [])\<close>\<close>

definition get_list :: "'a list option \<Rightarrow> 'a list" where
  "get_list field = (case field of None \<Rightarrow> [] | Some xs \<Rightarrow> xs)"

text \<open>\<^verbatim>\<open>s.endswith('/')\<close>\<close>

definition endswith_sep :: "string \<Rightarrow> bool" where
  "endswith_sep s = (s \<noteq> [] \<and> last s = CHR ''/'')"

text \<open>The source comment: a DeleteMarker does not have a \<^verbatim>\<open>'Size'\<close> key.\<close>

definition is_delete_marker :: "entry \<Rightarrow> bool" where
  "is_delete_marker e = (Size e = None)"

section \<open>Point-in-time resolution\<close>

text \<open>
  A Python dict keeps insertion order and an assignment to an existing key keeps the key's
  position, which is what \<open>AList.update\<close> does on an association list.

  The body of the inner loop of \<^verbatim>\<open>list_object_versions_at_timestamp\<close>
  (handler, lines 96 to 99).
\<close>

definition scan_entry :: "datetime \<Rightarrow> (string \<times> entry) list \<Rightarrow> entry \<Rightarrow> (string \<times> entry) list" where
  "scan_entry timestamp latest e =
     (if LastModified e \<le> timestamp then
        (let key = Key e in
         case map_of latest key of
           None \<Rightarrow> AList.update key e latest
         | Some cur \<Rightarrow>
             if LastModified e > LastModified cur then AList.update key e latest
             else latest)
      else latest)"

definition all_entries :: "page \<Rightarrow> entry list" where
  "all_entries p = get_list (Versions p) @ get_list (DeleteMarkers p)"

definition latest_valid_versions :: "datetime \<Rightarrow> page list \<Rightarrow> (string \<times> entry) list" where
  "latest_valid_versions timestamp pages =
     foldl (\<lambda>latest p. foldl (scan_entry timestamp) latest (all_entries p)) [] pages"

text \<open>
  The second loop of the handler (lines 101 to 106): \<^verbatim>\<open>entry.get('Size', 0) > 0\<close>
  is false when the key is absent, and \<^verbatim>\<open>entry['Size']\<close> is read only under it.
\<close>

definition collect_version :: "entry list \<times> int \<Rightarrow> string \<times> entry \<Rightarrow> entry list \<times> int" where
  "collect_version acc item =
     (case acc of (objects_to_download, total_size) \<Rightarrow>
      case item of (key, e) \<Rightarrow>
        (case Size e of
           None \<Rightarrow> acc
         | Some n \<Rightarrow>
             if VersionId e \<noteq> None \<and> n > 0 then (objects_to_download @ [e], total_size + n)
             else acc))"

definition list_object_versions_at_timestamp :: "datetime \<Rightarrow> page list \<Rightarrow> entry list \<times> int" where
  "list_object_versions_at_timestamp timestamp pages =
     foldl collect_version ([], 0) (latest_valid_versions timestamp pages)"

text \<open>
  \<^verbatim>\<open>list_objects_in_prefix\<close> (handler, lines 72 to 85); \<^verbatim>\<open>obj['Size']\<close>
  raises when the key is absent.
\<close>

fun collect_contents :: "entry list \<Rightarrow> entry list \<times> int \<Rightarrow> exn + entry list \<times> int" where
  "collect_contents [] acc = Inr acc"
| "collect_contents (obj # rest) (objects_to_download, total_size) =
     (case Size obj of
        None \<Rightarrow> Inl KeyError
      | Some n \<Rightarrow>
          if n > 0 then collect_contents rest (objects_to_download @ [obj], total_size + n)
          else collect_contents rest (objects_to_download, total_size))"

fun collect_pages :: "page list \<Rightarrow> entry list \<times> int \<Rightarrow> exn + entry list \<times> int" where
  "collect_pages [] acc = Inr acc"
| "collect_pages (p # ps) acc =
     (case Contents p of
        None \<Rightarrow> collect_pages ps acc
      | Some objs \<Rightarrow>
          (case collect_contents objs acc of
             Inl err \<Rightarrow> Inl err
           | Inr acc' \<Rightarrow> collect_pages ps acc'))"

definition list_objects_in_prefix :: "page list \<Rightarrow> exn + entry list \<times> int" where
  "list_objects_in_prefix pages = collect_pages pages ([], 0)"

text \<open>
  The script's \<^verbatim>\<open>download_versioned\<close>, lines 214 to 231: all pages are gathered
  first, records whose key ends in the separator are skipped, and the selection keeps
  every winner that has a \<^verbatim>\<open>'Size'\<close>, reading its \<^verbatim>\<open>'VersionId'\<close>.
\<close>

definition gather_entries :: "page list \<Rightarrow> entry list" where
  "gather_entries pages =
     foldl (\<lambda>acc p. (acc @ get_list (Versions p)) @ get_list (DeleteMarkers p)) [] pages"

definition scan_entry_script :: "datetime \<Rightarrow> (string \<times> entry) list \<Rightarrow> entry \<Rightarrow> (string \<times> entry) list" where
  "scan_entry_script target_timestamp latest e =
     (if endswith_sep (Key e) then latest
      else if LastModified e \<le> target_timestamp then
        (let key = Key e in
         case map_of latest key of
           None \<Rightarrow> AList.update key e latest
         | Some cur \<Rightarrow>
             if LastModified e > LastModified cur then AList.update key e latest
             else latest)
      else latest)"

definition latest_versions_in_time :: "datetime \<Rightarrow> page list \<Rightarrow> (string \<times> entry) list" where
  "latest_versions_in_time target_timestamp pages =
     foldl (scan_entry_script target_timestamp) [] (gather_entries pages)"

fun select_to_download :: "(string \<times> entry) list \<Rightarrow> (string \<times> string) list \<Rightarrow> exn + (string \<times> string) list" where
  "select_to_download [] to_download = Inr to_download"
| "select_to_download ((key, e) # rest) to_download =
     (if Size e \<noteq> None then
        (case VersionId e of
           None \<Rightarrow> Inl KeyError
         | Some v \<Rightarrow> select_to_download rest (AList.update key v to_download))
      else select_to_download rest to_download)"

definition to_download_at :: "datetime \<Rightarrow> page list \<Rightarrow> exn + (string \<times> string) list" where
  "to_download_at target_timestamp pages =
     select_to_download (latest_versions_in_time target_timestamp pages) []"

section \<open>Specification-side notions\<close>

text \<open>
  The per-key view of the scan: what one record does to the entry retained for key \<open>k\<close>.
\<close>

definition keep_latest :: "datetime \<Rightarrow> string \<Rightarrow> entry option \<Rightarrow> entry \<Rightarrow> entry option" where
  "keep_latest ts k cur e =
     (if Key e = k \<and> LastModified e \<le> ts then
        (case cur of
           None \<Rightarrow> Some e
         | Some c \<Rightarrow> if LastModified e > LastModified c then Some e else cur)
      else cur)"

definition no_ties :: "datetime \<Rightarrow> entry list \<Rightarrow> bool" where
  "no_ties ts xs =
     (\<forall>x\<in>set xs. \<forall>y\<in>set xs.
        Key x = Key y \<and> LastModified x = LastModified y \<and> LastModified x \<le> ts \<longrightarrow> x = y)"

text \<open>\<^verbatim>\<open>entry.get('Size', 0)\<close>\<close>

definition size_or_zero :: "entry \<Rightarrow> int" where
  "size_or_zero e = (case Size e of None \<Rightarrow> 0 | Some n \<Rightarrow> n)"

text \<open>The test of the handler's second loop, and that of the script's.\<close>

definition downloadable :: "entry \<Rightarrow> bool" where
  "downloadable e = (VersionId e \<noteq> None \<and> size_or_zero e > 0)"

definition has_size :: "entry \<Rightarrow> bool" where
  "has_size e = (Size e \<noteq> None)"

section \<open>Totals of the listings\<close>

lemma collect_version_pair:
  "collect_version (objs, tot) (key, e) =
     (case Size e of
        None \<Rightarrow> (objs, tot)
      | Some n \<Rightarrow> if VersionId e \<noteq> None \<and> n > 0 then (objs @ [e], tot + n) else (objs, tot))"
  by (simp add: collect_version_def)

lemma collect_version_total:
  "foldl collect_version (objs, tot) items = (objs', tot') \<Longrightarrow>
   tot' - tot = sum_list (map (\<lambda>e. case Size e of None \<Rightarrow> 0 | Some n \<Rightarrow> n) objs')
                    - sum_list (map (\<lambda>e. case Size e of None \<Rightarrow> 0 | Some n \<Rightarrow> n) objs)"
proof (induction items arbitrary: objs tot)
  case Nil
  then show ?case by simp
next
  case (Cons item items)
  obtain key e where item: "item = (key, e)" by (cases item)
  show ?case
  proof (cases "Size e")
    case None
    with Cons item show ?thesis by (simp add: collect_version_pair)
  next
    case (Some n)
    show ?thesis
    proof (cases "VersionId e \<noteq> None \<and> n > 0")
      case True
      with Cons.prems item Some
      have "foldl collect_version (objs @ [e], tot + n) items = (objs', tot')"
        by (simp add: collect_version_pair)
      from Cons.IH [OF this] Some show ?thesis by simp
    next
      case False
      with Cons.prems item Some
      have "foldl collect_version (objs, tot) items = (objs', tot')"
        by (auto simp add: collect_version_pair)
      from Cons.IH [OF this] show ?thesis .
    qed
  qed
qed

lemma collect_contents_total:
  "collect_contents cs (objs, tot) = Inr (objs', tot') \<Longrightarrow>
   tot' - tot = sum_list (map (\<lambda>e. case Size e of None \<Rightarrow> 0 | Some n \<Rightarrow> n) objs')
                    - sum_list (map (\<lambda>e. case Size e of None \<Rightarrow> 0 | Some n \<Rightarrow> n) objs)"
proof (induction cs arbitrary: objs tot)
  case Nil
  then show ?case by simp
next
  case (Cons obj cs)
  then show ?case
    by (cases "Size obj") (fastforce split: if_splits)+
qed

lemma collect_pages_total:
  "collect_pages ps (objs, tot) = Inr (objs', tot') \<Longrightarrow>
   tot' - tot = sum_list (map (\<lambda>e. case Size e of None \<Rightarrow> 0 | Some n \<Rightarrow> n) objs')
                    - sum_list (map (\<lambda>e. case Size e of None \<Rightarrow> 0 | Some n \<Rightarrow> n) objs)"
proof (induction ps arbitrary: objs tot)
  case Nil
  then show ?case by simp
next
  case (Cons p ps)
  show ?case
  proof (cases "Contents p")
    case None
    with Cons show ?thesis by simp
  next
    case (Some cs)
    with Cons.prems obtain objs1 total1 where
      c: "collect_contents cs (objs, tot) = Inr (objs1, total1)" and
      r: "collect_pages ps (objs1, total1) = Inr (objs', tot')"
      by (auto split: sum.splits)
    from collect_contents_total [OF c] Cons.IH [OF r] show ?thesis by simp
  qed
qed

section \<open>The scan, key by key\<close>

lemma keep_latest_step:
  "keep_latest ts k cur e =
     (if Key e = k \<and> LastModified e \<le> ts then
        (case cur of
           None \<Rightarrow> Some e
         | Some c \<Rightarrow> if LastModified e > LastModified c then Some e else cur)
      else cur)"
  by (simp add: keep_latest_def)

lemma keep_latest_skip:
  "\<not> (Key e = k \<and> LastModified e \<le> ts) \<Longrightarrow> keep_latest ts k cur e = cur"
  by (auto simp add: keep_latest_def)

lemma keep_latest_first:
  "Key e = k \<Longrightarrow> LastModified e \<le> ts \<Longrightarrow> keep_latest ts k None e = Some e"
  by (auto simp add: keep_latest_def)

lemma keep_latest_newer:
  "Key e = k \<Longrightarrow> LastModified e \<le> ts \<Longrightarrow> LastModified c < LastModified e \<Longrightarrow>
   keep_latest ts k (Some c) e = Some e"
  by (auto simp add: keep_latest_def)

lemma keep_latest_older:
  "Key e = k \<Longrightarrow> LastModified e \<le> ts \<Longrightarrow> \<not> LastModified c < LastModified e \<Longrightarrow>
   keep_latest ts k (Some c) e = Some c"
  by (auto simp add: keep_latest_def)

lemma scan_entry_step:
  "scan_entry timestamp latest e =
     (if LastModified e \<le> timestamp then
        (case map_of latest (Key e) of
           None \<Rightarrow> AList.update (Key e) e latest
         | Some cur \<Rightarrow>
             if LastModified e > LastModified cur then AList.update (Key e) e latest
             else latest)
      else latest)"
  by (simp add: scan_entry_def Let_def)

lemma map_of_scan_entry:
  "map_of (scan_entry ts latest e) k = keep_latest ts k (map_of latest k) e"
  by (auto simp add: scan_entry_step keep_latest_step update_conv' split: option.splits)

lemma map_of_foldl_scan_entry:
  "map_of (foldl (scan_entry ts) latest xs) k = foldl (keep_latest ts k) (map_of latest k) xs"
  by (induction xs arbitrary: latest) (simp_all add: map_of_scan_entry)

lemma distinct_scan_entry:
  "distinct (map fst latest) \<Longrightarrow> distinct (map fst (scan_entry ts latest e))"
  by (auto simp add: scan_entry_step distinct_update split: option.splits)

lemma distinct_foldl_scan_entry:
  "distinct (map fst latest) \<Longrightarrow> distinct (map fst (foldl (scan_entry ts) latest xs))"
  by (induction xs arbitrary: latest) (simp_all add: distinct_scan_entry)

lemma keep_latest_none:
  "foldl (keep_latest ts k) None xs = None \<longleftrightarrow> (\<forall>x\<in>set xs. \<not> (Key x = k \<and> LastModified x \<le> ts))"
  by (induction xs rule: rev_induct) (auto simp add: keep_latest_step split: option.splits)

lemma keep_latest_first_max:
  "foldl (keep_latest ts k) None xs = Some e \<Longrightarrow>
   \<exists>pre post. xs = pre @ e # post \<and> Key e = k \<and> LastModified e \<le> ts \<and>
     (\<forall>x\<in>set pre. Key x = k \<and> LastModified x \<le> ts \<longrightarrow> LastModified x < LastModified e) \<and>
     (\<forall>x\<in>set post. Key x = k \<and> LastModified x \<le> ts \<longrightarrow> LastModified x \<le> LastModified e)"
proof (induction xs arbitrary: e rule: rev_induct)
  case Nil
  then show ?case by simp
next
  case (snoc x xs)
  let ?el = "\<lambda>y. Key y = k \<and> LastModified y \<le> ts"
  let ?W = "foldl (keep_latest ts k) None xs"
  from snoc.prems have step: "keep_latest ts k ?W x = Some e" by simp
  show ?case
  proof (cases "?el x")
    case False
    then have "keep_latest ts k ?W x = ?W" by (rule keep_latest_skip)
    with step have "?W = Some e" by simp
    from snoc.IH [OF this] obtain pre post where
      d: "xs = pre @ e # post" "Key e = k" "LastModified e \<le> ts"
         "\<forall>x\<in>set pre. ?el x \<longrightarrow> LastModified x < LastModified e"
         "\<forall>x\<in>set post. ?el x \<longrightarrow> LastModified x \<le> LastModified e"
      by blast
    from d(1) have a: "xs @ [x] = pre @ e # (post @ [x])" by simp
    from d(5) False
    have b: "\<forall>y\<in>set (post @ [x]). ?el y \<longrightarrow> LastModified y \<le> LastModified e" by auto
    show ?thesis
      by (rule exI [of _ pre], rule exI [of _ "post @ [x]"]) (use a b d in blast)
  next
    case True
    then have kx: "Key x = k" and tx: "LastModified x \<le> ts" by simp_all
    show ?thesis
    proof (cases ?W)
      case None
      with step have "keep_latest ts k None x = Some e" by simp
      with keep_latest_first [OF kx tx] have ex: "e = x" by simp
      from None have n: "\<forall>y\<in>set xs. \<not> ?el y" by (simp only: keep_latest_none)
      have a: "xs @ [x] = xs @ e # []" using ex by simp
      have b: "\<forall>y\<in>set xs. ?el y \<longrightarrow> LastModified y < LastModified e" using n by blast
      have c: "\<forall>y\<in>set []. ?el y \<longrightarrow> LastModified y \<le> LastModified e" by simp
      show ?thesis
        by (rule exI [of _ xs], rule exI [of _ "[]"]) (use a b c kx tx ex in blast)
    next
      case (Some c)
      from snoc.IH [OF Some] obtain pre post where
        d: "xs = pre @ c # post" "Key c = k" "LastModified c \<le> ts"
           "\<forall>x\<in>set pre. ?el x \<longrightarrow> LastModified x < LastModified c"
           "\<forall>x\<in>set post. ?el x \<longrightarrow> LastModified x \<le> LastModified c"
        by blast
      from Some step have step': "keep_latest ts k (Some c) x = Some e" by simp
      show ?thesis
      proof (cases "LastModified c < LastModified x")
        case gt: True
        from keep_latest_newer [OF kx tx gt] step' have ex: "e = x" by simp
        have b: "\<forall>y\<in>set xs. ?el y \<longrightarrow> LastModified y < LastModified e"
        proof (intro ballI impI)
          fix y assume y: "y \<in> set xs" "?el y"
          have "LastModified y \<le> LastModified c"
          proof (cases "y \<in> set pre")
            case True
            with d(4) y(2) show ?thesis by (simp add: less_imp_le)
          next
            case False
            with y(1) d(1) have "y = c \<or> y \<in> set post" by auto
            with d(5) y(2) show ?thesis by auto
          qed
          with gt ex show "LastModified y < LastModified e" by simp
        qed
        have a: "xs @ [x] = xs @ e # []" using ex by simp
        have c: "\<forall>y\<in>set []. ?el y \<longrightarrow> LastModified y \<le> LastModified e" by simp
        show ?thesis
          by (rule exI [of _ xs], rule exI [of _ "[]"]) (use a b c kx tx ex in blast)
      next
        case le: False
        from keep_latest_older [OF kx tx le] step' have ec: "e = c" by simp
        from le have xc: "LastModified x \<le> LastModified c" by simp
        from d(1) have a: "xs @ [x] = pre @ c # (post @ [x])" by simp
        from d(5) xc
        have b: "\<forall>y\<in>set (post @ [x]). ?el y \<longrightarrow> LastModified y \<le> LastModified c" by auto
        show ?thesis
          by (rule exI [of _ pre], rule exI [of _ "post @ [x]"]) (use a b d ec in blast)
      qed
    qed
  qed
qed

lemma keep_latest_max:
  assumes "foldl (keep_latest ts k) None xs = Some e"
  shows "e \<in> set xs \<and> Key e = k \<and> LastModified e \<le> ts \<and>
         (\<forall>x\<in>set xs. Key x = k \<and> LastModified x \<le> ts \<longrightarrow> LastModified x \<le> LastModified e)"
proof -
  from keep_latest_first_max [OF assms] obtain pre post where
    d: "xs = pre @ e # post" "Key e = k" "LastModified e \<le> ts"
       "\<forall>x\<in>set pre. Key x = k \<and> LastModified x \<le> ts \<longrightarrow> LastModified x < LastModified e"
       "\<forall>x\<in>set post. Key x = k \<and> LastModified x \<le> ts \<longrightarrow> LastModified x \<le> LastModified e"
    by blast
  then show ?thesis by (auto simp add: less_imp_le)
qed

lemma keep_latest_time_set:
  assumes "set xs = set ys"
  shows "map_option LastModified (foldl (keep_latest ts k) None xs) =
         map_option LastModified (foldl (keep_latest ts k) None ys)"
proof (cases "foldl (keep_latest ts k) None xs")
  case None
  then have "foldl (keep_latest ts k) None ys = None"
    using assms by (simp add: keep_latest_none)
  with None show ?thesis by simp
next
  case (Some e)
  have "\<not> (\<forall>x\<in>set ys. \<not> (Key x = k \<and> LastModified x \<le> ts))"
    using keep_latest_max [OF Some] assms by blast
  then have "foldl (keep_latest ts k) None ys \<noteq> None"
    unfolding keep_latest_none .
  then obtain e' where e': "foldl (keep_latest ts k) None ys = Some e'"
    by blast
  from keep_latest_max [OF Some] keep_latest_max [OF e'] assms
  have "LastModified e \<le> LastModified e'" "LastModified e' \<le> LastModified e"
    by blast+
  with Some e' show ?thesis by simp
qed

lemma no_tiesD:
  assumes "no_ties ts xs" and "x \<in> set xs" and "y \<in> set xs"
    and "Key x = Key y" and "LastModified x = LastModified y" and "LastModified x \<le> ts"
  shows "x = y"
proof -
  from assms(1) have
    "\<forall>x\<in>set xs. \<forall>y\<in>set xs.
       Key x = Key y \<and> LastModified x = LastModified y \<and> LastModified x \<le> ts \<longrightarrow> x = y"
    by (simp only: no_ties_def)
  then have
    "\<forall>y\<in>set xs.
       Key x = Key y \<and> LastModified x = LastModified y \<and> LastModified x \<le> ts \<longrightarrow> x = y"
    using assms(2) by (rule bspec)
  then have
    "Key x = Key y \<and> LastModified x = LastModified y \<and> LastModified x \<le> ts \<longrightarrow> x = y"
    using assms(3) by (rule bspec)
  from this conjI [OF assms(4) conjI [OF assms(5) assms(6)]] show ?thesis by (rule mp)
qed

lemma keep_latest_set:
  assumes "set xs = set ys" and "no_ties ts xs"
  shows "foldl (keep_latest ts k) None xs = foldl (keep_latest ts k) None ys"
proof (cases "foldl (keep_latest ts k) None xs")
  case None
  then have "foldl (keep_latest ts k) None ys = None"
    using assms(1) by (simp add: keep_latest_none)
  with None show ?thesis by simp
next
  case (Some e)
  note mx = keep_latest_max [OF Some]
  from mx have ex: "e \<in> set xs" and ke: "Key e = k" and te: "LastModified e \<le> ts"
    by simp_all
  from ex assms(1) have "e \<in> set ys" by simp
  with ke te have "\<not> (\<forall>x\<in>set ys. \<not> (Key x = k \<and> LastModified x \<le> ts))" by blast
  then have "foldl (keep_latest ts k) None ys \<noteq> None"
    unfolding keep_latest_none .
  then obtain e' where e': "foldl (keep_latest ts k) None ys = Some e'"
    by blast
  note my = keep_latest_max [OF e']
  from my have ey: "e' \<in> set ys" and ke': "Key e' = k" and te': "LastModified e' \<le> ts"
    by simp_all
  from ey assms(1) have ex': "e' \<in> set xs" by simp
  from mx ex' ke' te' have le1: "LastModified e' \<le> LastModified e" by blast
  from my \<open>e \<in> set ys\<close> ke te have le2: "LastModified e \<le> LastModified e'" by blast
  from le1 le2 have eq: "LastModified e = LastModified e'" by (rule order_antisym [rotated])
  from ke ke' have kk: "Key e = Key e'" by simp
  from assms(2) ex ex' kk eq te have "e = e'" by (rule no_tiesD)
  with Some e' show ?thesis by simp
qed

lemma foldl_concat_pages:
  "foldl (\<lambda>latest p. foldl f latest (g p)) a ps = foldl f a (concat (map g ps))"
  by (induction ps arbitrary: a) simp_all

lemma gather_entries_acc:
  "foldl (\<lambda>acc p. (acc @ get_list (Versions p)) @ get_list (DeleteMarkers p)) a ps
     = a @ concat (map all_entries ps)"
  by (induction ps arbitrary: a) (simp_all add: all_entries_def)

lemma gather_entries_concat: "gather_entries ps = concat (map all_entries ps)"
  unfolding gather_entries_def gather_entries_acc by simp

lemma latest_valid_versions_gather:
  "latest_valid_versions ts ps = foldl (scan_entry ts) [] (gather_entries ps)"
  by (simp add: latest_valid_versions_def foldl_concat_pages gather_entries_concat)

lemma scan_entry_script_eq:
  "scan_entry_script ts latest e = (if endswith_sep (Key e) then latest else scan_entry ts latest e)"
  by (simp add: scan_entry_script_def scan_entry_def Let_def)

lemma foldl_scan_entry_script:
  "foldl (scan_entry_script ts) latest xs
     = foldl (scan_entry ts) latest (filter (\<lambda>e. \<not> endswith_sep (Key e)) xs)"
  by (induction xs arbitrary: latest) (simp_all add: scan_entry_script_eq)

section \<open>The selection after the scan\<close>

lemma collect_version_step:
  "collect_version (objs, tot) (key, e) =
     (if downloadable e then (objs @ [e], tot + size_or_zero e) else (objs, tot))"
  by (simp add: collect_version_pair downloadable_def size_or_zero_def split: option.splits)

lemma foldl_collect_version:
  "foldl collect_version (objs, tot) items =
     (objs @ filter downloadable (map snd items),
      tot + sum_list (map size_or_zero (filter downloadable (map snd items))))"
proof (induction items arbitrary: objs tot)
  case Nil
  show ?case by simp
next
  case (Cons item items)
  obtain key e where item: "item = (key, e)" by (cases item)
  show ?case
  proof (cases "downloadable e")
    case True
    then have "foldl collect_version (objs, tot) (item # items)
                 = foldl collect_version (objs @ [e], tot + size_or_zero e) items"
      by (simp add: item collect_version_step)
    also note Cons.IH
    finally show ?thesis using True by (simp add: item)
  next
    case False
    then have "foldl collect_version (objs, tot) (item # items)
                 = foldl collect_version (objs, tot) items"
      by (simp add: item collect_version_step)
    also note Cons.IH
    finally show ?thesis using False by (simp add: item)
  qed
qed

lemma list_object_versions_at_timestamp_eq:
  "list_object_versions_at_timestamp ts pages =
     (filter downloadable (map snd (latest_valid_versions ts pages)),
      sum_list (map size_or_zero (filter downloadable (map snd (latest_valid_versions ts pages)))))"
  by (simp add: list_object_versions_at_timestamp_def foldl_collect_version)

lemma collect_contents_eq:
  "collect_contents cs (objs, tot) = Inr (objs', tot') \<Longrightarrow>
   objs' = objs @ filter (\<lambda>obj. size_or_zero obj > 0) cs \<and>
   tot' = tot + sum_list (map size_or_zero (filter (\<lambda>obj. size_or_zero obj > 0) cs)) \<and>
   (\<forall>obj\<in>set cs. Size obj \<noteq> None)"
proof (induction cs arbitrary: objs tot)
  case Nil
  then show ?case by simp
next
  case (Cons obj cs)
  from Cons.prems obtain n where n: "Size obj = Some n"
    by (cases "Size obj") simp_all
  show ?case
  proof (cases "n > 0")
    case True
    with Cons.prems n have "collect_contents cs (objs @ [obj], tot + n) = Inr (objs', tot')"
      by simp
    from Cons.IH [OF this] n True show ?thesis by (simp add: size_or_zero_def)
  next
    case False
    with Cons.prems n have "collect_contents cs (objs, tot) = Inr (objs', tot')"
      by simp
    from Cons.IH [OF this] n False show ?thesis by (simp add: size_or_zero_def)
  qed
qed

lemma collect_pages_eq:
  "collect_pages ps (objs, tot) = Inr (objs', tot') \<Longrightarrow>
   objs' = objs @ filter (\<lambda>obj. size_or_zero obj > 0) (concat (map (\<lambda>p. get_list (Contents p)) ps)) \<and>
   tot' = tot + sum_list (map size_or_zero
            (filter (\<lambda>obj. size_or_zero obj > 0) (concat (map (\<lambda>p. get_list (Contents p)) ps))))"
proof (induction ps arbitrary: objs tot)
  case Nil
  then show ?case by simp
next
  case (Cons p ps)
  show ?case
  proof (cases "Contents p")
    case None
    with Cons.prems have "collect_pages ps (objs, tot) = Inr (objs', tot')" by simp
    from Cons.IH [OF this] None show ?thesis by (simp add: get_list_def)
  next
    case (Some cs)
    with Cons.prems obtain objs1 tot1 where
      c: "collect_contents cs (objs, tot) = Inr (objs1, tot1)" and
      r: "collect_pages ps (objs1, tot1) = Inr (objs', tot')"
      by (auto split: sum.splits)
    from collect_contents_eq [OF c] Cons.IH [OF r] Some show ?thesis
      by (simp add: get_list_def)
  qed
qed

lemma collect_contents_total_fn:
  "\<forall>obj\<in>set cs. Size obj \<noteq> None \<Longrightarrow> \<exists>r. collect_contents cs acc = Inr r"
proof (induction cs arbitrary: acc)
  case Nil
  show ?case by simp
next
  case (Cons obj cs)
  obtain objs tot where acc: "acc = (objs, tot)" by (cases acc)
  from Cons.prems obtain n where n: "Size obj = Some n" by auto
  from Cons.prems have rest: "\<forall>obj\<in>set cs. Size obj \<noteq> None" by simp
  show ?case
  proof (cases "n > 0")
    case True
    with Cons.IH [OF rest, of "(objs @ [obj], tot + n)"] n acc show ?thesis by simp
  next
    case False
    with Cons.IH [OF rest, of "(objs, tot)"] n acc show ?thesis by simp
  qed
qed

lemma collect_pages_total_fn:
  "\<forall>p\<in>set ps. \<forall>obj\<in>set (get_list (Contents p)). Size obj \<noteq> None \<Longrightarrow>
   \<exists>r. collect_pages ps acc = Inr r"
proof (induction ps arbitrary: acc)
  case Nil
  show ?case by simp
next
  case (Cons p ps)
  from Cons.prems have rest: "\<forall>p\<in>set ps. \<forall>obj\<in>set (get_list (Contents p)). Size obj \<noteq> None"
    by simp
  show ?case
  proof (cases "Contents p")
    case None
    with Cons.IH [OF rest, of acc] show ?thesis by simp
  next
    case (Some cs)
    with Cons.prems have "\<forall>obj\<in>set cs. Size obj \<noteq> None" by (simp add: get_list_def)
    from collect_contents_total_fn [OF this, of acc] obtain r where
      r: "collect_contents cs acc = Inr r" by blast
    with Cons.IH [OF rest, of r] Some show ?thesis by simp
  qed
qed

section \<open>Claims about the listings\<close>

lemma downloadable_has_size: "downloadable e \<Longrightarrow> Size e \<noteq> None"
  by (cases "Size e") (simp_all add: downloadable_def size_or_zero_def)

lemma positive_has_size: "size_or_zero e > 0 \<Longrightarrow> Size e \<noteq> None"
  by (cases "Size e") (simp_all add: size_or_zero_def)

text \<open>
  Claim C10. The total size returned alongside the object list is the sum of the
  \<^verbatim>\<open>Size\<close> fields of exactly the objects of that list, each of which carries a
  \<^verbatim>\<open>Size\<close>: for \<^verbatim>\<open>list_objects_in_prefix\<close> whenever it returns, and for
  \<^verbatim>\<open>list_object_versions_at_timestamp\<close>, which always returns.
\<close>

theorem listing_total_is_sum_of_sizes:
  "(list_objects_in_prefix pages = Inr (objs, tot) \<longrightarrow>
      tot = sum_list (map size_or_zero objs) \<and> (\<forall>obj\<in>set objs. Size obj \<noteq> None))
   \<and> snd (list_object_versions_at_timestamp ts pages)
       = sum_list (map size_or_zero (fst (list_object_versions_at_timestamp ts pages)))
   \<and> (\<forall>obj\<in>set (fst (list_object_versions_at_timestamp ts pages)). Size obj \<noteq> None)"
proof (intro conjI impI)
  assume r: "list_objects_in_prefix pages = Inr (objs, tot)"
  then have c: "collect_pages pages ([], 0) = Inr (objs, tot)"
    by (simp add: list_objects_in_prefix_def)
  from collect_pages_eq [OF c] show "tot = sum_list (map size_or_zero objs)" by simp
  from collect_pages_eq [OF c] show "\<forall>obj\<in>set objs. Size obj \<noteq> None"
    by (simp add: positive_has_size)
next
  show "snd (list_object_versions_at_timestamp ts pages)
          = sum_list (map size_or_zero (fst (list_object_versions_at_timestamp ts pages)))"
    by (simp add: list_object_versions_at_timestamp_eq)
next
  show "\<forall>obj\<in>set (fst (list_object_versions_at_timestamp ts pages)). Size obj \<noteq> None"
    by (simp add: list_object_versions_at_timestamp_eq downloadable_has_size)
qed

theorem listing_total_is_sum_of_sizes_witness:
  "list_objects_in_prefix
     [\<lparr>Contents = Some
         [\<lparr>Key = ''a/x.txt'', VersionId = None, LastModified = (2024, 5, 1, 0, 0, 0, 0), Size = Some 3\<rparr>,
          \<lparr>Key = ''a/'', VersionId = None, LastModified = (2024, 5, 1, 0, 0, 0, 0), Size = Some 0\<rparr>,
          \<lparr>Key = ''a/y.txt'', VersionId = None, LastModified = (2024, 5, 2, 0, 0, 0, 0), Size = Some 4\<rparr>],
       Versions = None, DeleteMarkers = None\<rparr>]
   = Inr ([\<lparr>Key = ''a/x.txt'', VersionId = None, LastModified = (2024, 5, 1, 0, 0, 0, 0), Size = Some 3\<rparr>,
           \<lparr>Key = ''a/y.txt'', VersionId = None, LastModified = (2024, 5, 2, 0, 0, 0, 0), Size = Some 4\<rparr>], 7)
   \<and> (7::int) = sum_list (map size_or_zero
        [\<lparr>Key = ''a/x.txt'', VersionId = None, LastModified = (2024, 5, 1, 0, 0, 0, 0), Size = Some 3\<rparr>,
         \<lparr>Key = ''a/y.txt'', VersionId = None, LastModified = (2024, 5, 2, 0, 0, 0, 0), Size = Some 4\<rparr>])"
proof -
  let ?x = "\<lparr>Key = ''a/x.txt'', VersionId = None, LastModified = (2024, 5, 1, 0, 0, 0, 0), Size = Some (3::int)\<rparr>"
  let ?d = "\<lparr>Key = ''a/'', VersionId = None, LastModified = (2024, 5, 1, 0, 0, 0, 0), Size = Some (0::int)\<rparr>"
  let ?y = "\<lparr>Key = ''a/y.txt'', VersionId = None, LastModified = (2024, 5, 2, 0, 0, 0, 0), Size = Some (4::int)\<rparr>"
  let ?P = "[\<lparr>Contents = Some [?x, ?d, ?y], Versions = None, DeleteMarkers = None\<rparr>]"
  have r: "list_objects_in_prefix ?P = Inr ([?x, ?y], 7)"
    by (simp add: list_objects_in_prefix_def)
  from listing_total_is_sum_of_sizes [of ?P "[?x, ?y]" 7 "(2024, 5, 1, 0, 0, 0, 0)"] r
  have "(7::int) = sum_list (map size_or_zero [?x, ?y])" by blast
  with r show ?thesis by simp
qed

end
